theory Spec2Isabelle
  imports Complex_Main "HOL-Library.Log_Nat"
begin

section \<open>Timing primitives and replica roles of the Raft replica\<close>

text \<open>
  The development embeds \<^verbatim>\<open>timer.py\<close> (classes \<^verbatim>\<open>Timer\<close> and \<^verbatim>\<open>Stopwatch\<close>) and
  \<^verbatim>\<open>ReplicaState.py\<close> (the role enumeration).

  Modelling conventions.
  \<^item> A timestamp or a time span is a Python \<^verbatim>\<open>float\<close>, an IEEE 754 binary64 number. The
    type \<open>float\<close> below has the finite binary64 values, the two infinities and NaN; \<open>+\<close>,
    \<open>-\<close> and \<open>>=\<close> of the source are \<open>fadd\<close>, \<open>fsub\<close> and \<open>fge\<close>, which round to
    nearest, ties to even, overflow to an infinity and treat NaN as IEEE 754 does. The two
    zeros are one value: they compare equal, and the sign of a zero operand changes no result
    of \<open>+\<close>, \<open>-\<close> or \<open>>=\<close> other than the sign of a zero result.
  \<^item> \<^verbatim>\<open>time.time()\<close> reads the system clock and returns a finite float. Every function
    that calls it takes the reading it obtains as its first argument \<open>now\<close>, of the type
    \<open>finite64\<close> of finite floats. The model puts no constraint on the readings; a statement
    that needs the clock not to run backwards between two calls says so as a hypothesis on
    the two readings.
  \<^item> A method returns its result paired with the object after the call, so that what a
    method does to the fields is visible.
  \<^item> A constructor call returns \<open>Inr\<close> of the new object, or \<open>Inl\<close> of an error when the
    constructor raises.
\<close>

subsection \<open>Python floats: binary64 arithmetic\<close>

text \<open>
  Rounding a real to the nearest integer, a tie going to the even neighbour.
\<close>

definition round_half_even :: "real \<Rightarrow> int" where
  "round_half_even z =
     (let n = \<lfloor>z\<rfloor>; r = z - of_int n in
      if r < 1/2 then n else if 1/2 < r then n + 1 else if even n then n else n + 1)"

text \<open>
  Rounding a non-negative real \<open>u\<close> to 53 significant bits: \<open>shift53 u\<close> is the number of
  low bits that a 53-bit significand cannot hold (the integer part of \<open>u\<close> has
  \<open>bitlen \<lfloor>u\<rfloor>\<close> bits), and \<open>round53 u\<close> is the multiple of \<open>2 ^ shift53 u\<close> nearest to
  \<open>u\<close>.
\<close>

definition shift53 :: "real \<Rightarrow> nat" where
  "shift53 u = nat (bitlen \<lfloor>u\<rfloor> - 53)"

definition round53 :: "real \<Rightarrow> int" where
  "round53 u = round_half_even (u / 2 ^ shift53 u) * 2 ^ shift53 u"

text \<open>
  Every finite binary64 value is an integer multiple of \<open>2\<^sup>-\<^sup>1\<^sup>0\<^sup>7\<^sup>4\<close> whose magnitude is
  below \<open>2\<^sup>1\<^sup>0\<^sup>2\<^sup>4\<close>. \<open>nearest64 x\<close> rounds the magnitude of \<open>x\<close>, counted in units of
  \<open>2\<^sup>-\<^sup>1\<^sup>0\<^sup>7\<^sup>4\<close>, to 53 significant bits and keeps the sign: it is the binary64 rounding
  of \<open>x\<close> before the overflow check, subnormal results included.
\<close>

definition scale64 :: real where
  "scale64 = 2 ^ 1074"

definition huge64 :: real where
  "huge64 = 2 ^ 1024"

definition nearest64 :: "real \<Rightarrow> real" where
  "nearest64 x =
     (if x < 0 then - (of_int (round53 (- x * scale64)) / scale64)
      else of_int (round53 (x * scale64)) / scale64)"

text \<open>The reals that are finite binary64 values: rounding leaves them as they are.\<close>

definition is_binary64 :: "real \<Rightarrow> bool" where
  "is_binary64 x \<longleftrightarrow> nearest64 x = x \<and> \<bar>x\<bar> < huge64"

text \<open>
  The finite floats. \<open>Rep_finite64 a\<close> is the real value of the float \<open>a\<close>. Finite floats
  are ordered, and compared for equality, by their values.
\<close>

typedef finite64 = "{x. is_binary64 x}"
proof
  show "0 \<in> {x. is_binary64 x}"
    by (simp add: is_binary64_def nearest64_def round53_def shift53_def round_half_even_def
        huge64_def)
qed

setup_lifting type_definition_finite64

instantiation finite64 :: "{linorder, equal}"
begin

lift_definition less_eq_finite64 :: "finite64 \<Rightarrow> finite64 \<Rightarrow> bool" is "(\<le>)" .

lift_definition less_finite64 :: "finite64 \<Rightarrow> finite64 \<Rightarrow> bool" is "(<)" .

lift_definition equal_finite64 :: "finite64 \<Rightarrow> finite64 \<Rightarrow> bool" is "(=)" .

instance
  by standard (transfer; auto)+

end

text \<open>
  \<open>finite64_of x\<close> is the finite float nearest to the real \<open>x\<close>, which is how a numeric
  literal of the source denotes a float: \<open>finite64_of 10\<close> is the float \<open>10.0\<close>. (Where the
  rounded value is out of the finite range, which \<open>round64\<close> below treats as an overflow,
  \<open>finite64_of\<close> is zero.)
\<close>

lift_definition finite64_of :: "real \<Rightarrow> finite64"
  is "\<lambda>x. if is_binary64 (nearest64 x) then nearest64 x else 0"
  by (simp add: is_binary64_def nearest64_def round53_def shift53_def round_half_even_def
        huge64_def)

datatype float = Finite finite64 | PosInf | NegInf | NaN

text \<open>
  The float a real result is rounded to: a rounded magnitude of \<open>2\<^sup>1\<^sup>0\<^sup>2\<^sup>4\<close> or more
  overflows to the infinity of its sign. \<open>round64 0\<close> is the float zero.
\<close>

definition round64 :: "real \<Rightarrow> float" where
  "round64 x =
     (let y = nearest64 x in
      if huge64 \<le> y then PosInf
      else if y \<le> - huge64 then NegInf
      else Finite (finite64_of x))"

text \<open>Python's \<^verbatim>\<open>a + b\<close> and \<^verbatim>\<open>a - b\<close> on floats.\<close>

fun fadd :: "float \<Rightarrow> float \<Rightarrow> float" where
  "fadd (Finite a) (Finite b) = round64 (Rep_finite64 a + Rep_finite64 b)"
| "fadd NaN _ = NaN"
| "fadd _ NaN = NaN"
| "fadd PosInf NegInf = NaN"
| "fadd NegInf PosInf = NaN"
| "fadd PosInf _ = PosInf"
| "fadd _ PosInf = PosInf"
| "fadd NegInf _ = NegInf"
| "fadd _ NegInf = NegInf"

fun fsub :: "float \<Rightarrow> float \<Rightarrow> float" where
  "fsub (Finite a) (Finite b) = round64 (Rep_finite64 a - Rep_finite64 b)"
| "fsub NaN _ = NaN"
| "fsub _ NaN = NaN"
| "fsub PosInf PosInf = NaN"
| "fsub NegInf NegInf = NaN"
| "fsub PosInf _ = PosInf"
| "fsub _ NegInf = PosInf"
| "fsub NegInf _ = NegInf"
| "fsub _ PosInf = NegInf"

text \<open>
  Python's \<^verbatim>\<open>a <= b\<close>, \<^verbatim>\<open>a < b\<close> and \<^verbatim>\<open>a >= b\<close> on floats: every comparison with NaN
  is false.
\<close>

fun fle :: "float \<Rightarrow> float \<Rightarrow> bool" where
  "fle (Finite a) (Finite b) = (a \<le> b)"
| "fle NaN _ = False"
| "fle _ NaN = False"
| "fle NegInf _ = True"
| "fle _ PosInf = True"
| "fle _ _ = False"

fun flt :: "float \<Rightarrow> float \<Rightarrow> bool" where
  "flt (Finite a) (Finite b) = (a < b)"
| "flt NaN _ = False"
| "flt _ NaN = False"
| "flt PosInf _ = False"
| "flt _ NegInf = False"
| "flt _ _ = True"

definition fge :: "float \<Rightarrow> float \<Rightarrow> bool" where
  "fge a b = fle b a"

subsection \<open>\<^verbatim>\<open>timer.py\<close>: \<^verbatim>\<open>Timer\<close>\<close>

datatype error = InvalidArgument

record Timer =
  start_time :: float
  duration :: float

text \<open>
  \<^verbatim>\<open>
  def __init__(self, duration: float):
      self.start_time = time.time()
      self.duration = duration
  \<close>
  The body has no \<^verbatim>\<open>raise\<close> and no check of \<^verbatim>\<open>duration\<close>: the only outcome is \<open>Inr\<close>.
\<close>

definition Timer_init :: "finite64 \<Rightarrow> float \<Rightarrow> error + Timer" where
  "Timer_init now d = Inr \<lparr>Timer.start_time = Finite now, duration = d\<rparr>"

text \<open>
  \<^verbatim>\<open>
  def is_done(self) -> bool:
      return time.time() >= self.start_time + self.duration
  \<close>
\<close>

definition is_done :: "finite64 \<Rightarrow> Timer \<Rightarrow> bool \<times> Timer" where
  "is_done now self = (fge (Finite now) (fadd (Timer.start_time self) (duration self)), self)"

text \<open>
  A run of successive \<^verbatim>\<open>is_done()\<close> calls on one timer, one call per clock reading of the
  list, in order; the object left by a call is the one the next call receives.
\<close>

fun poll :: "finite64 list \<Rightarrow> Timer \<Rightarrow> bool list \<times> Timer" where
  "poll [] self = ([], self)"
| "poll (now # nows) self =
     (case is_done now self of (b, self') \<Rightarrow>
        (case poll nows self' of (bs, self'') \<Rightarrow> (b # bs, self'')))"

subsection \<open>\<^verbatim>\<open>timer.py\<close>: \<^verbatim>\<open>Stopwatch\<close>\<close>

record Stopwatch =
  start_time :: float

text \<open>
  \<^verbatim>\<open>
  def __init__(self):
      self.start_time = time.time()
  \<close>
\<close>

definition Stopwatch_init :: "finite64 \<Rightarrow> error + Stopwatch" where
  "Stopwatch_init now = Inr \<lparr>Stopwatch.start_time = Finite now\<rparr>"

text \<open>
  \<^verbatim>\<open>
  def time_elapsed(self) -> float:
      return time.time() - self.start_time
  \<close>
\<close>

definition time_elapsed :: "finite64 \<Rightarrow> Stopwatch \<Rightarrow> float \<times> Stopwatch" where
  "time_elapsed now self = (fsub (Finite now) (Stopwatch.start_time self), self)"

subsection \<open>\<^verbatim>\<open>ReplicaState.py\<close>\<close>

text \<open>
  \<^verbatim>\<open>
  class ReplicaState(Enum):
      FOLLOWER = 0
      CANDIDATE = 1
      LEADER = 2
  \<close>
\<close>

datatype ReplicaState = FOLLOWER | CANDIDATE | LEADER

fun ReplicaState_value :: "ReplicaState \<Rightarrow> int" where
  "ReplicaState_value FOLLOWER = 0"
| "ReplicaState_value CANDIDATE = 1"
| "ReplicaState_value LEADER = 2"

subsection \<open>The election controller\<close>

text \<open>
  Modelled from the spec: the ElectionController and its transition function. No source file
  of the repository under study holds them; the definitions below follow the transition table
  of the spec (section 4.3), its failure semantics and its error taxonomy (section 7), one
  table cell per case. The state keeps what the outbound interface of the spec exposes
  (\<open>current_role\<close>, \<open>current_term\<close>) and the identity the emitted intents carry; what a cell
  does to timers and to the network is returned as a list of effects.
\<close>

datatype controller_error = IllegalTransition

record ElectionController =
  replica_id :: nat
  current_role :: ReplicaState
  current_term :: int

datatype event =
    on_election_timeout
  | on_vote_majority
  | on_append_or_heartbeat_received int nat
  | on_heartbeat_timeout
  | on_higher_term_observed int

datatype effect =
    VoteForSelf
  | ResetElectionTimer
  | CancelElectionTimer
  | ArmHeartbeatTimer
  | ResetHeartbeatTimer
  | RequestVote int nat
  | Heartbeat int nat

text \<open>
  Modelled from the spec: the transition function, one case per cell of the table of
  section 4.3. An event with no entry for the current role is an illegal transition attempt: it is
  reported and the state is not touched. A message of a lower term is stale: it is dropped,
  which is not an error.
\<close>

fun step :: "event \<Rightarrow> ElectionController
    \<Rightarrow> controller_error + (ElectionController \<times> effect list)" where
  "step on_election_timeout c =
     (case current_role c of
        FOLLOWER \<Rightarrow>
          Inr (c\<lparr>current_role := CANDIDATE, current_term := current_term c + 1\<rparr>,
               [VoteForSelf, ResetElectionTimer,
                RequestVote (current_term c + 1) (replica_id c)])
      | CANDIDATE \<Rightarrow>
          Inr (c\<lparr>current_role := CANDIDATE, current_term := current_term c + 1\<rparr>,
               [VoteForSelf, ResetElectionTimer])
      | LEADER \<Rightarrow> Inl IllegalTransition)"
| "step on_vote_majority c =
     (case current_role c of
        FOLLOWER \<Rightarrow> Inl IllegalTransition
      | CANDIDATE \<Rightarrow>
          Inr (c\<lparr>current_role := LEADER\<rparr>,
               [CancelElectionTimer, ArmHeartbeatTimer,
                Heartbeat (current_term c) (replica_id c)])
      | LEADER \<Rightarrow> Inl IllegalTransition)"
| "step (on_append_or_heartbeat_received t leader_id) c =
     (if t < current_term c then Inr (c, [])
      else
        (case current_role c of
           FOLLOWER \<Rightarrow> Inr (c\<lparr>current_term := t\<rparr>, [ResetElectionTimer])
         | CANDIDATE \<Rightarrow>
             Inr (c\<lparr>current_role := FOLLOWER, current_term := t\<rparr>, [ResetElectionTimer])
         | LEADER \<Rightarrow>
             Inr (c\<lparr>current_role := FOLLOWER, current_term := t\<rparr>, [ResetElectionTimer])))"
| "step on_heartbeat_timeout c =
     (case current_role c of
        FOLLOWER \<Rightarrow> Inl IllegalTransition
      | CANDIDATE \<Rightarrow> Inl IllegalTransition
      | LEADER \<Rightarrow>
          Inr (c, [Heartbeat (current_term c) (replica_id c), ResetHeartbeatTimer]))"
| "step (on_higher_term_observed t) c =
     (if t \<le> current_term c then Inr (c, [])
      else Inr (c\<lparr>current_role := FOLLOWER, current_term := t\<rparr>, [ResetElectionTimer]))"

text \<open>
  Modelled from the spec: delivering an event. A rejected event leaves the controller as it
  was (section 8: the controller rejects the event rather than mutate state).
\<close>

definition deliver :: "event \<Rightarrow> ElectionController \<Rightarrow> ElectionController" where
  "deliver ev c = (case step ev c of Inl _ \<Rightarrow> c | Inr (c', _) \<Rightarrow> c')"

text \<open>
  Modelled from the spec: the states a controller goes through over a sequence of events
  (the lifetime of the replica of section 8): the state before the
  first event, then the state after each event in turn.
\<close>

fun trace :: "event list \<Rightarrow> ElectionController \<Rightarrow> ElectionController list" where
  "trace [] c = [c]"
| "trace (ev # evs) c = c # trace evs (deliver ev c)"

text \<open>
  Modelled from the spec: a transition into \<open>CANDIDATE\<close> (first row of the table of section
  4.3). It is an event that the controller accepts and that leaves it in
  the role \<open>CANDIDATE\<close>, coming from another role or, for a controller that is \<open>CANDIDATE\<close>
  already, on the expiry of the election timer (the split-vote retry of the table). A stale
  message dropped by a \<open>CANDIDATE\<close> is no transition.
\<close>

definition enters_candidate :: "event \<Rightarrow> ElectionController \<Rightarrow> bool" where
  "enters_candidate ev c \<longleftrightarrow>
     (case step ev c of
        Inl _ \<Rightarrow> False
      | Inr (c', _) \<Rightarrow>
          current_role c' = CANDIDATE
          \<and> (current_role c \<noteq> CANDIDATE \<or> ev = on_election_timeout))"

section \<open>Properties of binary64 rounding\<close>

text \<open>
  The rounding function is monotone, leaves a representable value as it is, and returns a
  representable value nearest to its argument (\<open>nearest64_mono\<close>, \<open>nearest64_idem\<close>,
  \<open>nearest64_nearest\<close>); every \<open>m \<times> 2\<^sup>k / 2\<^sup>1\<^sup>0\<^sup>7\<^sup>4\<close> with \<open>\<bar>m\<bar> < 2\<^sup>5\<^sup>3\<close> and \<open>k \<le> 2045\<close>
  is representable (\<open>is_binary64_classic\<close>).
\<close>

lemma rhe_int: "round_half_even (of_int n) = n"
  by (simp add: round_half_even_def)

lemma rhe_between: "\<lfloor>z\<rfloor> \<le> round_half_even z \<and> round_half_even z \<le> \<lfloor>z\<rfloor> + 1"
  by (simp add: round_half_even_def Let_def)

lemma rhe_le: "z \<le> of_int n \<Longrightarrow> round_half_even z \<le> n"
proof (cases "z = of_int n")
  case True
  then show ?thesis by (simp add: rhe_int)
next
  case False
  assume "z \<le> of_int n"
  with False have "z < of_int n" by simp
  then have "\<lfloor>z\<rfloor> < n" by (simp add: floor_less_iff)
  with rhe_between [of z] show ?thesis by linarith
qed

lemma rhe_ge: "of_int n \<le> z \<Longrightarrow> n \<le> round_half_even z"
proof -
  assume "of_int n \<le> z"
  then have "n \<le> \<lfloor>z\<rfloor>" by (simp add: le_floor_iff)
  with rhe_between [of z] show ?thesis by linarith
qed

lemma rhe_mono: "z \<le> w \<Longrightarrow> round_half_even z \<le> round_half_even w"
proof -
  assume zw: "z \<le> w"
  then have fl: "\<lfloor>z\<rfloor> \<le> \<lfloor>w\<rfloor>" by (rule floor_mono)
  show ?thesis
  proof (cases "\<lfloor>z\<rfloor> = \<lfloor>w\<rfloor>")
    case True
    with zw show ?thesis
      by (auto simp: round_half_even_def Let_def)
  next
    case False
    with fl have "\<lfloor>z\<rfloor> + 1 \<le> \<lfloor>w\<rfloor>" by simp
    with rhe_between [of z] rhe_between [of w] show ?thesis by linarith
  qed
qed

lemma round53_alt: "round53 u = round_half_even (u / 2 ^ shift53 u) * 2 ^ shift53 u"
  by (simp add: round53_def)

lemma shift53_upper: "u < 2 ^ (shift53 u + 53)"
proof -
  have "bitlen \<lfloor>u\<rfloor> \<le> int (shift53 u + 53)"
    by (simp add: shift53_def)
  then have "\<lfloor>u\<rfloor> < 2 ^ nat (int (shift53 u + 53))"
    by (simp only: bitlen_le_iff_power)
  then have "\<lfloor>u\<rfloor> < 2 ^ (shift53 u + 53)"
    by (simp only: nat_int)
  then show ?thesis
    by (simp add: floor_less_iff)
qed

lemma shift53_lower: "0 < shift53 u \<Longrightarrow> 2 ^ (shift53 u + 52) \<le> u"
proof -
  assume "0 < shift53 u"
  then have "int (shift53 u + 53) \<le> bitlen \<lfloor>u\<rfloor>"
    by (simp add: shift53_def)
  then have "2 ^ (nat (int (shift53 u + 53)) - 1) \<le> \<lfloor>u\<rfloor>"
    using bitlen_ge_iff_power [of "int (shift53 u + 53)" "\<lfloor>u\<rfloor>"] by linarith
  moreover have "nat (int (shift53 u + 53)) - 1 = shift53 u + 52"
    by simp
  ultimately have "2 ^ (shift53 u + 52) \<le> \<lfloor>u\<rfloor>"
    by simp
  then have "of_int (2 ^ (shift53 u + 52)) \<le> u"
    by (simp only: le_floor_iff)
  then show ?thesis by simp
qed

lemma shift53_mono: "u \<le> v \<Longrightarrow> shift53 u \<le> shift53 v"
proof -
  assume "u \<le> v"
  then have "\<lfloor>u\<rfloor> \<le> \<lfloor>v\<rfloor>" by (rule floor_mono)
  then have "bitlen \<lfloor>u\<rfloor> \<le> bitlen \<lfloor>v\<rfloor>"
    by (simp add: bitlen_def floorlog_mono)
  then show ?thesis by (simp add: shift53_def)
qed

lemma round53_nonneg: "0 \<le> u \<Longrightarrow> 0 \<le> round53 u"
proof -
  assume "0 \<le> u"
  then have "of_int 0 \<le> u / 2 ^ shift53 u" by simp
  then have "0 \<le> round_half_even (u / 2 ^ shift53 u)" by (rule rhe_ge)
  then show ?thesis by (simp add: round53_alt)
qed

lemma round53_le_multiple:
  assumes "u \<le> of_int (n * 2 ^ shift53 u)"
  shows "round53 u \<le> n * 2 ^ shift53 u"
proof -
  have "u / 2 ^ shift53 u \<le> of_int n"
    using assms by (simp add: divide_le_eq)
  then have "round_half_even (u / 2 ^ shift53 u) \<le> n" by (rule rhe_le)
  then show ?thesis by (simp add: round53_alt)
qed

lemma round53_ge_multiple:
  assumes "of_int (n * 2 ^ shift53 u) \<le> u"
  shows "n * 2 ^ shift53 u \<le> round53 u"
proof -
  have "of_int n \<le> u / 2 ^ shift53 u"
    using assms by (simp add: le_divide_eq)
  then have "n \<le> round_half_even (u / 2 ^ shift53 u)" by (rule rhe_ge)
  then show ?thesis by (simp add: round53_alt)
qed

lemma round53_mono: "u \<le> v \<Longrightarrow> round53 u \<le> round53 v"
proof -
  assume uv: "u \<le> v"
  let ?a = "shift53 u" and ?b = "shift53 v"
  have ab: "?a \<le> ?b" using uv by (rule shift53_mono)
  show ?thesis
  proof (cases "?a = ?b")
    case True
    have "u / 2 ^ ?b \<le> v / 2 ^ ?b"
      using uv by (simp add: divide_right_mono)
    then have "round_half_even (u / 2 ^ ?b) \<le> round_half_even (v / 2 ^ ?b)"
      by (rule rhe_mono)
    then show ?thesis
      using True by (simp add: round53_alt)
  next
    case False
    with ab have lt: "?a < ?b" by simp
    then have pos: "0 < ?b" by simp
    define p :: int where "p = 2 ^ (?b + 52)"
    have pv: "of_int p \<le> v"
      using shift53_lower [OF pos] by (simp add: p_def)
    have "u < 2 ^ (?a + 53)" by (rule shift53_upper)
    also have "(2::real) ^ (?a + 53) \<le> 2 ^ (?b + 52)"
      using lt by (intro power_increasing) simp_all
    finally have up: "u \<le> of_int p" by (simp add: p_def)
    have pa: "p = 2 ^ (?b + 52 - ?a) * 2 ^ ?a"
      using lt by (simp add: p_def flip: power_add)
    have pb: "p = 2 ^ 52 * 2 ^ ?b"
      by (simp add: p_def power_add)
    have "round53 u \<le> 2 ^ (?b + 52 - ?a) * 2 ^ ?a"
      using up pa by (intro round53_le_multiple) simp
    moreover have "2 ^ 52 * 2 ^ ?b \<le> round53 v"
      using pv pb by (intro round53_ge_multiple) simp
    ultimately show ?thesis using pa pb by simp
  qed
qed

lemma round53_exact:
  assumes "0 \<le> m" and "m \<le> 2 ^ 53"
  shows "round53 (of_int (m * 2 ^ k)) = m * 2 ^ k"
proof (cases "m = 0")
  case True
  then show ?thesis using rhe_int [of 0] by (simp add: round53_def)
next
  case False
  with assms have mpos: "0 < m" by simp
  define j where "j = m * 2 ^ k"
  define s where "s = shift53 (of_int j)"
  have bl: "bitlen j = bitlen m + int k"
    using mpos by (simp add: j_def)
  have s: "s = nat (bitlen m + int k - 53)"
    by (simp add: s_def shift53_def bl)
  have "\<exists>n. j = n * 2 ^ s"
  proof (cases "bitlen m \<le> 53")
    case True
    then have "s \<le> k" by (simp add: s)
    then have "j = (m * 2 ^ (k - s)) * 2 ^ s"
      by (simp add: j_def flip: power_add)
    then show ?thesis by blast
  next
    case False
    then have "54 \<le> bitlen m" by simp
    then have "2 ^ 53 \<le> m" by (simp add: bitlen_ge_iff_power)
    with assms have m: "m = 2 ^ 53" by simp
    have "bitlen m = 54"
      using bitlen_twopow_add_eq [of 0 53] by (simp add: m)
    then have "s = k + 1" by (simp add: s)
    then have "j = 2 ^ 52 * 2 ^ s"
      by (simp add: m j_def)
    then show ?thesis by blast
  qed
  then obtain n where n: "j = n * 2 ^ s" by blast
  have "of_int j / 2 ^ s = (of_int n :: real)"
    by (subst n) simp
  then have r: "round_half_even (of_int j / 2 ^ s) = n"
    by (simp only: rhe_int)
  have "round53 (of_int j) = round_half_even (of_int j / 2 ^ s) * 2 ^ s"
    unfolding s_def by (rule round53_alt)
  also have "\<dots> = n * 2 ^ s" by (simp only: r)
  also have "\<dots> = j" by (rule n [symmetric])
  finally show ?thesis by (simp only: j_def)
qed

lemma round53_form:
  assumes "0 \<le> u"
  shows "\<exists>m k. round53 u = m * 2 ^ k \<and> 0 \<le> m \<and> m \<le> 2 ^ 53"
proof -
  let ?k = "shift53 u"
  let ?m = "round_half_even (u / 2 ^ ?k)"
  have "u < 2 ^ (?k + 53)" by (rule shift53_upper)
  then have "u / 2 ^ ?k \<le> of_int (2 ^ 53)"
    by (simp add: divide_le_eq power_add mult.commute)
  then have "?m \<le> 2 ^ 53" by (rule rhe_le)
  moreover have "0 \<le> ?m"
    using assms by (intro rhe_ge) simp
  ultimately show ?thesis
    using round53_alt [of u] by blast
qed

lemma round53_idem: "0 \<le> u \<Longrightarrow> round53 (of_int (round53 u)) = round53 u"
  using round53_form [of u] round53_exact by (metis)


lemma scale64_pos: "0 < scale64"
  by (simp add: scale64_def)

lemma huge64_pos: "0 < huge64"
  by (simp add: huge64_def)

lemma nearest64_zero: "nearest64 0 = 0"
  using round53_exact [of 0 0] by (simp add: nearest64_def)

lemma nearest64_nonneg: "0 \<le> x \<Longrightarrow> 0 \<le> nearest64 x"
  using scale64_pos round53_nonneg [of "x * scale64"] by (simp add: nearest64_def)

lemma nearest64_nonpos: "x \<le> 0 \<Longrightarrow> nearest64 x \<le> 0"
proof (cases "x < 0")
  case True
  then have "0 \<le> round53 (- x * scale64)"
    using scale64_pos by (intro round53_nonneg) (simp add: mult_nonpos_nonneg)
  then show ?thesis
    using True scale64_pos by (simp add: nearest64_def)
next
  case False
  assume "x \<le> 0"
  with False have "x = 0" by simp
  then show ?thesis by (simp add: nearest64_zero)
qed

lemma nearest64_mono: "x \<le> y \<Longrightarrow> nearest64 x \<le> nearest64 y"
proof -
  assume xy: "x \<le> y"
  consider (neg) "y < 0" | (mixed) "x < 0" "0 \<le> y" | (pos) "0 \<le> x"
    by linarith
  then show ?thesis
  proof cases
    case neg
    with xy have x: "x < 0" by simp
    have "- y * scale64 \<le> - x * scale64"
      using xy scale64_pos by simp
    then have "round53 (- y * scale64) \<le> round53 (- x * scale64)"
      by (rule round53_mono)
    then have "real_of_int (round53 (- y * scale64)) / scale64
        \<le> real_of_int (round53 (- x * scale64)) / scale64"
      using scale64_pos by (simp add: divide_right_mono)
    then show ?thesis
      using neg x by (simp add: nearest64_def)
  next
    case mixed
    then have "nearest64 x \<le> 0" and "0 \<le> nearest64 y"
      by (simp_all add: nearest64_nonpos nearest64_nonneg)
    then show ?thesis by simp
  next
    case pos
    with xy have y: "0 \<le> y" by simp
    have "x * scale64 \<le> y * scale64"
      using xy scale64_pos by simp
    then have "round53 (x * scale64) \<le> round53 (y * scale64)"
      by (rule round53_mono)
    then have "real_of_int (round53 (x * scale64)) / scale64
        \<le> real_of_int (round53 (y * scale64)) / scale64"
      using scale64_pos by (simp add: divide_right_mono)
    then show ?thesis
      using pos y by (simp add: nearest64_def)
  qed
qed

lemma nearest64_of_scaled:
  assumes "0 \<le> j" and "round53 (of_int j) = j"
  shows "nearest64 (of_int j / scale64) = of_int j / scale64"
    and "nearest64 (- (of_int j / scale64)) = - (of_int j / scale64)"
proof -
  have nn: "0 \<le> real_of_int j / scale64"
    using assms(1) scale64_pos by simp
  show "nearest64 (of_int j / scale64) = of_int j / scale64"
    using nn scale64_pos assms(2) by (simp add: nearest64_def)
  show "nearest64 (- (of_int j / scale64)) = - (of_int j / scale64)"
  proof (cases "j = 0")
    case True
    then show ?thesis by (simp add: nearest64_zero)
  next
    case False
    with assms(1) have "0 < real_of_int j / scale64"
      using scale64_pos by simp
    then show ?thesis
      using scale64_pos assms(2) by (simp add: nearest64_def)
  qed
qed

lemma nearest64_idem: "nearest64 (nearest64 x) = nearest64 x"
proof (cases "x < 0")
  case True
  define j where "j = round53 (- x * scale64)"
  have "0 \<le> - x * scale64"
    using True scale64_pos by (simp add: mult_nonpos_nonneg)
  then have "0 \<le> j" and "round53 (of_int j) = j"
    unfolding j_def by (rule round53_nonneg, rule round53_idem)
  then have "nearest64 (- (of_int j / scale64)) = - (of_int j / scale64)"
    by (rule nearest64_of_scaled)
  moreover have "nearest64 x = - (of_int j / scale64)"
    using True by (simp add: nearest64_def j_def)
  ultimately show ?thesis by simp
next
  case False
  define j where "j = round53 (x * scale64)"
  have "0 \<le> x * scale64"
    using False scale64_pos by simp
  then have "0 \<le> j" and "round53 (of_int j) = j"
    unfolding j_def by (rule round53_nonneg, rule round53_idem)
  then have "nearest64 (of_int j / scale64) = of_int j / scale64"
    by (rule nearest64_of_scaled)
  moreover have "nearest64 x = of_int j / scale64"
    using False by (simp add: nearest64_def j_def)
  ultimately show ?thesis by simp
qed

lemma nearest64_dyadic:
  assumes "\<bar>m\<bar> \<le> 2 ^ 53" and "k \<le> 1074"
  shows "nearest64 (of_int m / 2 ^ k) = of_int m / 2 ^ k"
proof -
  define j where "j = \<bar>m\<bar> * 2 ^ (1074 - k)"
  have j0: "0 \<le> j" by (simp add: j_def)
  have jr: "round53 (of_int j) = j"
    unfolding j_def using assms(1) by (intro round53_exact) simp_all
  have "1074 - k + k = 1074"
    using assms(2) by simp
  then have "(2::real) ^ (1074 - k) * 2 ^ k = 2 ^ 1074"
    by (metis power_add)
  then have sc: "scale64 = 2 ^ (1074 - k) * 2 ^ k"
    by (simp only: scale64_def)
  have "real_of_int j / scale64 = of_int \<bar>m\<bar> / 2 ^ k"
    by (simp add: j_def sc)
  then have e: "real_of_int j / scale64 = \<bar>of_int m / 2 ^ k\<bar>"
    by simp
  show ?thesis
  proof (cases "0 \<le> m")
    case True
    then have "of_int m / 2 ^ k = real_of_int j / scale64"
      using e by simp
    then show ?thesis
      using nearest64_of_scaled(1) [OF j0 jr] by simp
  next
    case False
    then have "of_int m / 2 ^ k = - (real_of_int j / scale64)"
      using e by simp
    then show ?thesis
      using nearest64_of_scaled(2) [OF j0 jr] by simp
  qed
qed

lemma nearest64_int: "\<bar>m\<bar> \<le> 2 ^ 53 \<Longrightarrow> nearest64 (of_int m) = of_int m"
  using nearest64_dyadic [of m 0] by simp


lemma shift53_eq:
  assumes "2 ^ (k + 52) \<le> u" and "u < 2 ^ (k + 53)"
  shows "shift53 u = k"
proof -
  have "of_int (2 ^ (k + 52)) \<le> u" using assms(1) by simp
  then have "2 ^ (k + 52) \<le> \<lfloor>u\<rfloor>" by (simp only: le_floor_iff)
  moreover have "nat (int (k + 53)) - 1 = k + 52" by simp
  ultimately have "2 ^ (nat (int (k + 53)) - 1) \<le> \<lfloor>u\<rfloor>" by simp
  then have ge: "int (k + 53) \<le> bitlen \<lfloor>u\<rfloor>"
    using bitlen_ge_iff_power [of "int (k + 53)" "\<lfloor>u\<rfloor>"] by blast
  have "u < of_int (2 ^ (k + 53))" using assms(2) by simp
  then have "\<lfloor>u\<rfloor> < 2 ^ (k + 53)" by (simp only: floor_less_iff)
  then have "\<lfloor>u\<rfloor> < 2 ^ nat (int (k + 53))" by (simp only: nat_int)
  then have le: "bitlen \<lfloor>u\<rfloor> \<le> int (k + 53)"
    using bitlen_le_iff_power [of "\<lfloor>u\<rfloor>" "int (k + 53)"] by simp
  from ge le have "bitlen \<lfloor>u\<rfloor> = int k + 53" by simp
  then show ?thesis by (simp add: shift53_def)
qed

lemma nearest64_binade:
  assumes "c \<le> 1074" and "2 ^ 52 \<le> x * 2 ^ c" and "x * 2 ^ c < 2 ^ 53"
  shows "nearest64 x = of_int (round_half_even (x * 2 ^ c)) / 2 ^ c"
proof -
  define k where "k = 1074 - c"
  have "k + c = 1074" using assms(1) by (simp add: k_def)
  then have "(2::real) ^ k * 2 ^ c = 2 ^ 1074" by (metis power_add)
  then have sc: "scale64 = 2 ^ k * 2 ^ c" by (simp only: scale64_def)
  have xpos: "0 < x"
  proof (rule ccontr)
    assume "\<not> 0 < x"
    then have "x * 2 ^ c \<le> 0" by (simp add: mult_nonpos_nonneg)
    moreover have "(0::real) < 2 ^ 52" by simp
    ultimately show False using assms(2) by linarith
  qed
  define u where "u = x * scale64"
  have u: "u = (x * 2 ^ c) * 2 ^ k" by (simp add: u_def sc)
  have "2 ^ k * 2 ^ 52 \<le> (x * 2 ^ c) * (2::real) ^ k"
    using assms(2) by (simp add: mult.commute)
  then have lo: "2 ^ (k + 52) \<le> u" by (simp add: u power_add)
  have "(x * 2 ^ c) * (2::real) ^ k < 2 ^ k * 2 ^ 53"
    using assms(3) by (simp add: mult.commute)
  then have hi: "u < 2 ^ (k + 53)" by (simp add: u power_add)
  have sh: "shift53 u = k" using lo hi by (rule shift53_eq)
  have "u / 2 ^ k = x * 2 ^ c" by (simp add: u)
  then have "round53 u = round_half_even (x * 2 ^ c) * 2 ^ k"
    by (simp add: round53_alt sh)
  then have "real_of_int (round53 u) / scale64 = of_int (round_half_even (x * 2 ^ c)) / 2 ^ c"
    by (simp add: sc)
  then show ?thesis
    using xpos by (simp add: nearest64_def u_def)
qed


lemma abs_scale:
  fixes a u p :: real
  assumes "0 < p"
  shows "\<bar>a * p - u\<bar> = \<bar>a - u / p\<bar> * p"
proof -
  have "(a - u / p) * p = a * p - u"
    using assms by (simp add: field_simps)
  then have "\<bar>a * p - u\<bar> = \<bar>(a - u / p) * p\<bar>" by simp
  also have "\<dots> = \<bar>a - u / p\<bar> * \<bar>p\<bar>" by (rule abs_mult)
  finally show ?thesis using assms by simp
qed

lemma rhe_nearest: "\<bar>of_int (round_half_even z) - z\<bar> \<le> \<bar>of_int n - z\<bar>"
proof -
  define f where "f = \<lfloor>z\<rfloor>"
  have f: "of_int f \<le> z" "z < of_int f + 1"
    by (simp_all add: f_def)
  consider "n \<le> f" | "f + 1 \<le> n" by linarith
  then show ?thesis
  proof cases
    case 1
    then have "real_of_int n \<le> of_int f" by simp
    then show ?thesis
      using f by (auto simp: round_half_even_def Let_def f_def [symmetric])
  next
    case 2
    then have "real_of_int f + 1 \<le> of_int n" by (metis of_int_1 of_int_add of_int_le_iff)
    then show ?thesis
      using f by (auto simp: round_half_even_def Let_def f_def [symmetric])
  qed
qed

lemma round53_nearest_multiple:
  "\<bar>of_int (round53 u) - u\<bar> \<le> \<bar>of_int (n * 2 ^ shift53 u) - u\<bar>"
proof -
  let ?s = "shift53 u"
  have p: "(0::real) < 2 ^ ?s" by simp
  have "\<bar>of_int (round53 u) - u\<bar>
      = \<bar>of_int (round_half_even (u / 2 ^ ?s)) * 2 ^ ?s - u\<bar>"
    by (simp add: round53_alt)
  also have "\<dots> = \<bar>of_int (round_half_even (u / 2 ^ ?s)) - u / 2 ^ ?s\<bar> * 2 ^ ?s"
    using p by (rule abs_scale)
  also have "\<dots> \<le> \<bar>of_int n - u / 2 ^ ?s\<bar> * 2 ^ ?s"
    using rhe_nearest [of "u / 2 ^ ?s" n] p by (simp only: mult_le_cancel_right_pos)
  also have "\<dots> = \<bar>of_int n * 2 ^ ?s - u\<bar>"
    using p by (rule abs_scale [symmetric])
  also have "\<dots> = \<bar>of_int (n * 2 ^ ?s) - u\<bar>"
    by simp
  finally show ?thesis .
qed

lemma round53_fixed_multiple:
  assumes "round53 (of_int i) = i" and "shift53 u \<le> shift53 (of_int i)"
  shows "\<exists>n. i = n * 2 ^ shift53 u"
proof -
  let ?t = "shift53 (of_int i)"
  have "i = round_half_even (of_int i / 2 ^ ?t) * 2 ^ ?t"
    using assms(1) by (simp only: round53_alt)
  also have "\<dots> = round_half_even (of_int i / 2 ^ ?t) * 2 ^ (?t - shift53 u) * 2 ^ shift53 u"
    using assms(2) by (simp add: mult.assoc flip: power_add)
  finally show ?thesis by blast
qed

lemma round53_nearest:
  assumes "round53 (of_int i) = i"
  shows "\<bar>of_int (round53 u) - u\<bar> \<le> \<bar>of_int i - u\<bar>"
proof (cases "shift53 u \<le> shift53 (of_int i)")
  case True
  then obtain n where "i = n * 2 ^ shift53 u"
    using round53_fixed_multiple [OF assms] by blast
  then show ?thesis
    using round53_nearest_multiple [of u n] by simp
next
  case False
  let ?s = "shift53 u"
  from False have lt: "shift53 (of_int i) < ?s" by simp
  then have pos: "0 < ?s" by simp
  have pu: "2 ^ (?s + 52) \<le> u" using pos by (rule shift53_lower)
  have ip: "real_of_int i < 2 ^ (?s + 52)"
  proof (rule ccontr)
    assume "\<not> real_of_int i < 2 ^ (?s + 52)"
    then have "(2::real) ^ (?s + 52) \<le> of_int i" by simp
    then have "shift53 ((2::real) ^ (?s + 52)) \<le> shift53 (of_int i)" by (rule shift53_mono)
    moreover have "shift53 ((2::real) ^ (?s + 52)) = ?s"
      by (rule shift53_eq) simp_all
    ultimately show False using lt by simp
  qed
  have "\<bar>of_int (round53 u) - u\<bar> \<le> \<bar>of_int (2 ^ 52 * 2 ^ ?s) - u\<bar>"
    by (rule round53_nearest_multiple)
  also have "\<dots> = \<bar>2 ^ (?s + 52) - u\<bar>"
    by (simp add: power_add mult.commute)
  also have "\<dots> \<le> \<bar>of_int i - u\<bar>"
    using pu ip by linarith
  finally show ?thesis .
qed

lemma nearest64_nearest:
  assumes "nearest64 y = y"
  shows "\<bar>nearest64 x - x\<bar> \<le> \<bar>y - x\<bar>"
proof -
  have key: "\<bar>nearest64 a - a\<bar> \<le> \<bar>b - a\<bar>" if "0 \<le> a" and "0 \<le> b" and "nearest64 b = b" for a b
  proof -
    define i where "i = round53 (b * scale64)"
    have b: "b = of_int i / scale64"
      using that(2,3) by (simp add: nearest64_def i_def)
    have "0 \<le> b * scale64" using that(2) scale64_pos by simp
    then have "round53 (of_int i) = i"
      unfolding i_def by (rule round53_idem)
    then have "\<bar>of_int (round53 (a * scale64)) - a * scale64\<bar> \<le> \<bar>of_int i - a * scale64\<bar>"
      by (rule round53_nearest)
    then have "\<bar>of_int (round53 (a * scale64)) / scale64 - a\<bar> * scale64
        \<le> \<bar>of_int i / scale64 - a\<bar> * scale64"
      using scale64_pos
      by (simp only: abs_scale [of scale64, symmetric] abs_minus_commute [of _ a])
    then have "\<bar>of_int (round53 (a * scale64)) / scale64 - a\<bar> \<le> \<bar>of_int i / scale64 - a\<bar>"
      using scale64_pos by (simp only: mult_le_cancel_right_pos)
    then show ?thesis
      using that(1) by (simp add: nearest64_def b)
  qed
  have neg: "nearest64 (- a) = - nearest64 a" for a
  proof -
    consider "a < 0" | "a = 0" | "0 < a" by linarith
    then show ?thesis
    proof cases
      case 1
      then show ?thesis by (simp add: nearest64_def)
    next
      case 2
      then show ?thesis by (simp add: nearest64_zero)
    next
      case 3
      then show ?thesis by (simp add: nearest64_def)
    qed
  qed
  have zero: "\<bar>nearest64 a - a\<bar> \<le> \<bar>a\<bar>" if "0 \<le> a" for a
    using key [OF that, of 0] by (simp add: nearest64_zero)
  consider (pp) "0 \<le> x" "0 \<le> y" | (pn) "0 \<le> x" "y < 0" | (np) "x < 0" "0 \<le> y"
    | (nn) "x < 0" "y < 0" by linarith
  then show ?thesis
  proof cases
    case pp
    then show ?thesis using assms by (intro key)
  next
    case pn
    then show ?thesis using zero [of x] by simp
  next
    case np
    have "\<bar>nearest64 (- x) - (- x)\<bar> \<le> \<bar>- x\<bar>"
      using np by (intro zero) simp
    then show ?thesis using np by (simp add: neg)
  next
    case nn
    have "nearest64 (- y) = - y" using assms by (simp add: neg)
    then have "\<bar>nearest64 (- x) - (- x)\<bar> \<le> \<bar>(- y) - (- x)\<bar>"
      using nn by (intro key) simp_all
    then show ?thesis by (simp add: neg abs_minus_commute)
  qed
qed

lemma is_binary64_classic:
  assumes "\<bar>m\<bar> < 2 ^ 53" and "k \<le> 2045"
  shows "is_binary64 (of_int (m * 2 ^ k) / scale64)"
proof -
  define j where "j = \<bar>m\<bar> * 2 ^ k"
  have j0: "0 \<le> j" by (simp add: j_def)
  have jr: "round53 (of_int j) = j"
    unfolding j_def using assms(1) by (intro round53_exact) simp_all
  have fx: "nearest64 (of_int (m * 2 ^ k) / scale64) = of_int (m * 2 ^ k) / scale64"
  proof (cases "0 \<le> m")
    case True
    then have "m * 2 ^ k = j" by (simp add: j_def)
    then show ?thesis using nearest64_of_scaled(1) [OF j0 jr] by simp
  next
    case False
    then have "real_of_int (m * 2 ^ k) / scale64 = - (of_int j / scale64)"
      by (simp add: j_def)
    then show ?thesis using nearest64_of_scaled(2) [OF j0 jr] by simp
  qed
  have "real_of_int j < 2 ^ 53 * 2 ^ k"
    using assms(1) by (simp add: j_def)
  also have "(2::real) ^ 53 * 2 ^ k \<le> 2 ^ 53 * 2 ^ 2045"
  proof -
    have "(2::real) ^ k \<le> 2 ^ 2045"
      using assms(2) by (intro power_increasing) simp_all
    then show ?thesis by (simp only: mult_le_cancel_left_pos zero_less_power zero_less_numeral)
  qed
  also have "\<dots> = huge64 * scale64"
    by (simp only: huge64_def scale64_def flip: power_add) simp
  finally have "real_of_int j / scale64 < huge64"
    using scale64_pos by (simp add: divide_less_eq)
  moreover have "\<bar>real_of_int (m * 2 ^ k) / scale64\<bar> = of_int j / scale64"
    using scale64_pos by (simp add: j_def abs_mult)
  ultimately show ?thesis
    using fx by (simp add: is_binary64_def)
qed


section \<open>Properties of float arithmetic\<close>

lemma Rep_nearest64:
  "\<bar>nearest64 x\<bar> < huge64 \<Longrightarrow> Rep_finite64 (finite64_of x) = nearest64 x"
  by (simp add: finite64_of.rep_eq is_binary64_def nearest64_idem)

lemma Rep_finite64_of: "is_binary64 x \<Longrightarrow> Rep_finite64 (finite64_of x) = x"
  by (simp add: finite64_of.rep_eq is_binary64_def)

lemma finite64_of_Rep: "finite64_of (Rep_finite64 a) = a"
proof -
  have "is_binary64 (Rep_finite64 a)" using Rep_finite64 [of a] by simp
  then have "Rep_finite64 (finite64_of (Rep_finite64 a)) = Rep_finite64 a"
    by (rule Rep_finite64_of)
  then show ?thesis by (simp only: Rep_finite64_inject)
qed

lemma round64_exact: "is_binary64 x \<Longrightarrow> round64 x = Finite (finite64_of x)"
  by (auto simp: round64_def Let_def is_binary64_def)

lemma round64_Rep: "round64 (Rep_finite64 a) = Finite a"
proof -
  have "is_binary64 (Rep_finite64 a)" using Rep_finite64 [of a] by simp
  then show ?thesis by (simp add: round64_exact finite64_of_Rep)
qed

lemma round64_mono: "x \<le> y \<Longrightarrow> fle (round64 x) (round64 y)"
proof -
  assume "x \<le> y"
  then have m: "nearest64 x \<le> nearest64 y" by (rule nearest64_mono)
  have h: "0 < huge64" by (rule huge64_pos)
  show ?thesis
    using m h by (auto simp: round64_def Let_def less_eq_finite64.rep_eq Rep_nearest64)
qed

lemma fle_trans: "fle a b \<Longrightarrow> fle b c \<Longrightarrow> fle a c"
  by (cases a; cases b; cases c) auto

lemma fle_antisym: "fle a b \<Longrightarrow> fle b a \<Longrightarrow> a = b"
  by (cases a; cases b) auto

lemma fle_refl_iff: "fle a a \<longleftrightarrow> a \<noteq> NaN"
  by (cases a) auto

lemma flt_iff: "flt a b \<longleftrightarrow> fle a b \<and> a \<noteq> b"
  by (cases a; cases b) auto

lemma not_flt_if_fle: "fle a b \<Longrightarrow> \<not> flt b a"
  by (cases a; cases b) auto


lemma is_binary64_dyadic:
  assumes "\<bar>m\<bar> \<le> 2 ^ 53" and "k \<le> 1074"
  shows "is_binary64 (of_int m / 2 ^ k)"
proof -
  have "\<bar>real_of_int m / 2 ^ k\<bar> \<le> \<bar>real_of_int m\<bar>"
    by (simp add: divide_le_eq mult_le_cancel_left1 flip: abs_ge_zero)
  also have "\<bar>real_of_int m\<bar> \<le> 2 ^ 53"
    using assms(1) by (metis of_int_abs of_int_le_numeral_power_cancel_iff)
  also have "(2::real) ^ 53 < 2 ^ 1024"
    by (rule power_strict_increasing) simp_all
  finally show ?thesis
    using assms by (simp add: is_binary64_def nearest64_dyadic huge64_def)
qed

lemma is_binary64_int: "\<bar>m\<bar> \<le> 2 ^ 53 \<Longrightarrow> is_binary64 (of_int m)"
  using is_binary64_dyadic [of m 0] by simp

lemma Rep_of_int: "\<bar>m\<bar> \<le> 2 ^ 53 \<Longrightarrow> Rep_finite64 (finite64_of (of_int m)) = of_int m"
  by (simp add: Rep_finite64_of is_binary64_int)

lemma Rep_of_dyadic:
  "\<bar>m\<bar> \<le> 2 ^ 53 \<Longrightarrow> k \<le> 1074
     \<Longrightarrow> Rep_finite64 (finite64_of (of_int m / 2 ^ k)) = of_int m / 2 ^ k"
  by (simp add: Rep_finite64_of is_binary64_dyadic)

lemma round64_int: "\<bar>m\<bar> \<le> 2 ^ 53 \<Longrightarrow> round64 (of_int m) = Finite (finite64_of (of_int m))"
  by (simp add: round64_exact is_binary64_int)

lemmas Rep_of_0 = Rep_of_int [of 0, simplified]
lemmas round64_0 = round64_int [of 0, simplified]

lemma fle_zero_iff: "fle (round64 0) d \<longleftrightarrow> d = PosInf \<or> (\<exists>b. d = Finite b \<and> 0 \<le> Rep_finite64 b)"
  by (cases d) (auto simp: round64_0 less_eq_finite64.rep_eq Rep_of_0)

lemma flt_zero_iff: "flt d (round64 0) \<longleftrightarrow> d = NegInf \<or> (\<exists>b. d = Finite b \<and> Rep_finite64 b < 0)"
  by (cases d) (auto simp: round64_0 less_finite64.rep_eq Rep_of_0)

lemma fadd_ge_left: "fle (round64 0) d \<Longrightarrow> fle (Finite t) (fadd (Finite t) d)"
proof -
  assume "fle (round64 0) d"
  then consider "d = PosInf" | b where "d = Finite b" "0 \<le> Rep_finite64 b"
    by (auto simp: fle_zero_iff)
  then show ?thesis
  proof cases
    case 1
    then show ?thesis by simp
  next
    case 2
    then have "fle (round64 (Rep_finite64 t)) (round64 (Rep_finite64 t + Rep_finite64 b))"
      by (intro round64_mono) simp
    with 2 show ?thesis by (simp add: round64_Rep)
  qed
qed

lemma fadd_le_left: "flt d (round64 0) \<Longrightarrow> fle (fadd (Finite t) d) (Finite t)"
proof -
  assume "flt d (round64 0)"
  then consider "d = NegInf" | b where "d = Finite b" "Rep_finite64 b < 0"
    by (auto simp: flt_zero_iff)
  then show ?thesis
  proof cases
    case 1
    then show ?thesis by simp
  next
    case 2
    then have "fle (round64 (Rep_finite64 t + Rep_finite64 b)) (round64 (Rep_finite64 t))"
      by (intro round64_mono) simp
    with 2 show ?thesis by (simp add: round64_Rep)
  qed
qed

lemma fsub_mono_left: "a \<le> b \<Longrightarrow> s \<noteq> NaN \<Longrightarrow> fle (fsub (Finite a) s) (fsub (Finite b) s)"
proof (cases s)
  case (Finite c)
  assume "a \<le> b"
  then have "Rep_finite64 a - Rep_finite64 c \<le> Rep_finite64 b - Rep_finite64 c"
    by (simp add: less_eq_finite64.rep_eq)
  then show ?thesis using Finite by (simp add: round64_mono)
qed simp_all


lemma round64_near:
  assumes "nearest64 x = y" and "\<bar>y\<bar> < huge64"
  shows "round64 x = Finite (finite64_of y)"
proof -
  have "is_binary64 y"
    using assms nearest64_idem [of x] by (simp add: is_binary64_def)
  then have "Rep_finite64 (finite64_of y) = y" by (rule Rep_finite64_of)
  moreover have "Rep_finite64 (finite64_of x) = y"
    using assms by (simp add: Rep_nearest64)
  ultimately have "finite64_of x = finite64_of y"
    by (simp add: Rep_finite64_inject [symmetric])
  then show ?thesis
    using assms huge64_pos by (auto simp: round64_def Let_def)
qed

lemma nearest64_absorbed_above: "nearest64 (1700000000 + 1 / 2 ^ 30) = 1700000000"
proof -
  have "nearest64 (1700000000 + 1 / 2 ^ 30)
      = of_int (round_half_even ((1700000000 + 1 / 2 ^ 30) * 2 ^ 22)) / 2 ^ 22"
    by (rule nearest64_binade) simp_all
  also have "\<dots> = 1700000000"
    by (simp add: round_half_even_def)
  finally show ?thesis .
qed

lemma nearest64_absorbed_below: "nearest64 (1700000000 - 1 / 2 ^ 30) = 1700000000"
proof -
  have "nearest64 (1700000000 - 1 / 2 ^ 30)
      = of_int (round_half_even ((1700000000 - 1 / 2 ^ 30) * 2 ^ 22)) / 2 ^ 22"
    by (rule nearest64_binade) simp_all
  also have "\<dots> = 1700000000"
    by (simp add: round_half_even_def)
  finally show ?thesis .
qed

lemma small_lt_huge64: "\<bar>x\<bar> \<le> 2 ^ 53 \<Longrightarrow> \<bar>x\<bar> < huge64"
proof -
  assume "\<bar>x\<bar> \<le> 2 ^ 53"
  also have "(2::real) ^ 53 < 2 ^ 1024"
    by (rule power_strict_increasing) simp_all
  finally show ?thesis by (simp only: huge64_def)
qed


section \<open>Properties of the timer\<close>

lemma poll_eq:
  "poll nows self =
     (map (\<lambda>now. fge (Finite now) (fadd (Timer.start_time self) (duration self))) nows, self)"
  by (induction nows) (simp_all add: is_done_def)

lemma Timer_init_fields:
  "Timer_init t0 d = Inr tm \<Longrightarrow> Timer.start_time tm = Finite t0 \<and> duration tm = d"
  by (auto simp: Timer_init_def)

text \<open>
  C1 (as amended). A timer constructed at clock reading \<open>t0\<close> with a duration \<open>d \<ge> 0\<close>
  answers \<^verbatim>\<open>is_done()\<close> with true exactly when the reading of the call is at least the
  deadline the code computes, the float sum of \<open>t0\<close> and \<open>d\<close> (the exact sum rounded to
  binary64). That deadline is never before \<open>t0\<close>, and a call whose reading is still \<open>t0\<close>
  (the construction instant) answers false exactly when the deadline differs from \<open>t0\<close>,
  that is, when the rounding has not absorbed \<open>d\<close>. Whenever the exact sum \<open>t0 + d\<close> is
  itself a float, the answer is true exactly from \<open>t0 + d\<close> on, and false at \<open>t0\<close> when
  \<open>d > 0\<close>.
\<close>

theorem is_done_iff_rounded_deadline:
  assumes "fle (round64 0) d" and "Timer_init t0 d = Inr tm"
  shows "(fst (is_done now tm) \<longleftrightarrow> fle (fadd (Finite t0) d) (Finite now))
     \<and> fle (Finite t0) (fadd (Finite t0) d)
     \<and> (\<not> fst (is_done t0 tm) \<longleftrightarrow> fadd (Finite t0) d \<noteq> Finite t0)
     \<and> (d = Finite d' \<and> is_binary64 (Rep_finite64 t0 + Rep_finite64 d') \<longrightarrow>
          (fst (is_done now tm) \<longleftrightarrow> Rep_finite64 t0 + Rep_finite64 d' \<le> Rep_finite64 now)
          \<and> (0 < Rep_finite64 d' \<longrightarrow> \<not> fst (is_done t0 tm)))"
proof -
  let ?D = "fadd (Finite t0) d"
  have f: "Timer.start_time tm = Finite t0" "duration tm = d"
    using Timer_init_fields [OF assms(2)] by simp_all
  have a: "fst (is_done now tm) \<longleftrightarrow> fle ?D (Finite now)" for now
    by (simp add: is_done_def fge_def f)
  have b: "fle (Finite t0) ?D"
    using assms(1) by (rule fadd_ge_left)
  have c: "\<not> fst (is_done t0 tm) \<longleftrightarrow> ?D \<noteq> Finite t0"
    using b fle_antisym [of ?D "Finite t0"] by (auto simp: a)
  have e: "(fst (is_done now tm) \<longleftrightarrow> Rep_finite64 t0 + Rep_finite64 d' \<le> Rep_finite64 now)
          \<and> (0 < Rep_finite64 d' \<longrightarrow> \<not> fst (is_done t0 tm))"
    if "d = Finite d'" and r: "is_binary64 (Rep_finite64 t0 + Rep_finite64 d')"
  proof -
    have "?D = Finite (finite64_of (Rep_finite64 t0 + Rep_finite64 d'))"
      using that by (simp add: round64_exact)
    then show ?thesis
      using r by (simp add: a less_eq_finite64.rep_eq Rep_finite64_of)
  qed
  show ?thesis using a b c e by blast
qed

theorem is_done_iff_rounded_deadline_witness:
  "fle (round64 0) (Finite (finite64_of 3))
   \<and> Timer_init (finite64_of 10) (Finite (finite64_of 3))
       = Inr \<lparr>Timer.start_time = Finite (finite64_of 10), duration = Finite (finite64_of 3)\<rparr>
   \<and> is_binary64 (Rep_finite64 (finite64_of 10) + Rep_finite64 (finite64_of 3))
   \<and> \<not> fst (is_done (finite64_of 10)
        \<lparr>Timer.start_time = Finite (finite64_of 10), duration = Finite (finite64_of 3)\<rparr>)
   \<and> \<not> fst (is_done (finite64_of 12)
        \<lparr>Timer.start_time = Finite (finite64_of 10), duration = Finite (finite64_of 3)\<rparr>)
   \<and> fst (is_done (finite64_of 13)
        \<lparr>Timer.start_time = Finite (finite64_of 10), duration = Finite (finite64_of 3)\<rparr>)"
proof -
  note r = Rep_of_int [of 3, simplified] Rep_of_int [of 10, simplified]
    Rep_of_int [of 12, simplified] Rep_of_int [of 13, simplified]
  have d: "fle (round64 0) (Finite (finite64_of 3))"
    by (simp add: round64_0 less_eq_finite64.rep_eq Rep_of_0 r)
  have c: "Timer_init (finite64_of 10) (Finite (finite64_of 3))
       = Inr \<lparr>Timer.start_time = Finite (finite64_of 10), duration = Finite (finite64_of 3)\<rparr>"
    by (simp add: Timer_init_def)
  have b: "is_binary64 (Rep_finite64 (finite64_of 10) + Rep_finite64 (finite64_of 3))"
    using is_binary64_int [of 13] by (simp add: r)
  let ?tm = "\<lparr>Timer.start_time = Finite (finite64_of 10), duration = Finite (finite64_of 3)\<rparr>"
  have "fst (is_done (finite64_of 12) ?tm) \<longleftrightarrow>
      Rep_finite64 (finite64_of 10) + Rep_finite64 (finite64_of 3)
        \<le> Rep_finite64 (finite64_of 12)"
    using b is_done_iff_rounded_deadline [OF d c, of "finite64_of 12" "finite64_of 3"]
    by blast
  then have n12: "\<not> fst (is_done (finite64_of 12) ?tm)"
    by (simp add: r)
  have "fst (is_done (finite64_of 13) ?tm) \<longleftrightarrow>
      Rep_finite64 (finite64_of 10) + Rep_finite64 (finite64_of 3)
        \<le> Rep_finite64 (finite64_of 13)"
    using b is_done_iff_rounded_deadline [OF d c, of "finite64_of 13" "finite64_of 3"]
    by blast
  then have y13: "fst (is_done (finite64_of 13) ?tm)"
    by (simp add: r)
  have "0 < Rep_finite64 (finite64_of 3)"
    by (simp add: r)
  then have n10: "\<not> fst (is_done (finite64_of 10) ?tm)"
    using b is_done_iff_rounded_deadline [OF d c, of "finite64_of 12" "finite64_of 3"]
    by blast
  show ?thesis
    using d c b n10 n12 y13 by blast
qed

text \<open>
  The claim with the exact sum does not hold of float arithmetic. At the clock reading
  \<open>1700000000\<close> the floats are \<open>2\<^sup>-\<^sup>2\<^sup>2\<close> apart, so the duration \<open>2\<^sup>-\<^sup>3\<^sup>0 > 0\<close> is absorbed: the
  deadline is the reading itself, and the fresh timer answers true at the construction
  instant, a reading that is below the exact sum.
\<close>

theorem is_done_absorbed_duration_counterexample:
  "flt (round64 0) (Finite (finite64_of (1 / 2 ^ 30)))
   \<and> Timer_init (finite64_of 1700000000) (Finite (finite64_of (1 / 2 ^ 30)))
       = Inr \<lparr>Timer.start_time = Finite (finite64_of 1700000000),
              duration = Finite (finite64_of (1 / 2 ^ 30))\<rparr>
   \<and> fst (is_done (finite64_of 1700000000)
        \<lparr>Timer.start_time = Finite (finite64_of 1700000000),
         duration = Finite (finite64_of (1 / 2 ^ 30))\<rparr>)
   \<and> \<not> (Rep_finite64 (finite64_of 1700000000) + Rep_finite64 (finite64_of (1 / 2 ^ 30))
          \<le> Rep_finite64 (finite64_of 1700000000))"
proof -
  define t where "t = finite64_of 1700000000"
  define d where "d = finite64_of (1 / 2 ^ 30)"
  have rt: "Rep_finite64 t = 1700000000"
    unfolding t_def using Rep_of_int [of 1700000000] by simp
  have rd: "Rep_finite64 d = 1 / 2 ^ 30"
    unfolding d_def using Rep_of_dyadic [of 1 30] by simp
  have "fadd (Finite t) (Finite d) = round64 (1700000000 + 1 / 2 ^ 30)"
    by (simp only: fadd.simps rt rd)
  also have "\<dots> = Finite t"
    unfolding t_def using nearest64_absorbed_above small_lt_huge64 [of 1700000000]
    by (intro round64_near) simp_all
  finally have s: "fadd (Finite t) (Finite d) = Finite t" .
  have "flt (round64 0) (Finite d)
     \<and> Timer_init t (Finite d) = Inr \<lparr>Timer.start_time = Finite t, duration = Finite d\<rparr>
     \<and> fst (is_done t \<lparr>Timer.start_time = Finite t, duration = Finite d\<rparr>)
     \<and> \<not> (Rep_finite64 t + Rep_finite64 d \<le> Rep_finite64 t)"
    by (simp add: is_done_def fge_def Timer_init_def s round64_0 less_finite64.rep_eq Rep_of_0 rd
        del: fadd.simps)
  then show ?thesis
    unfolding t_def d_def .
qed

text \<open>
  C2. Over a run of \<^verbatim>\<open>is_done()\<close> calls on one timer whose clock readings do not decrease
  (time advances), once a call has answered true every later call answers true.
\<close>

theorem is_done_stays_true:
  assumes "sorted nows" and "i \<le> j" and "j < length nows" and "fst (poll nows tm) ! i"
  shows "fst (poll nows tm) ! j"
proof -
  let ?D = "fadd (Timer.start_time tm) (duration tm)"
  have "nows ! i \<le> nows ! j"
    using assms(1-3) by (rule sorted_nth_mono)
  then have "fle (Finite (nows ! i)) (Finite (nows ! j))" by simp
  moreover have "fle ?D (Finite (nows ! i))"
    using assms(2-4) by (simp add: poll_eq fge_def)
  ultimately have "fle ?D (Finite (nows ! j))"
    using fle_trans by blast
  then show ?thesis
    using assms(3) by (simp add: poll_eq fge_def)
qed

theorem is_done_stays_true_witness:
  "sorted [finite64_of 1, finite64_of 2, finite64_of 3]
   \<and> (1::nat) \<le> 2 \<and> 2 < length [finite64_of 1, finite64_of 2, finite64_of 3]
   \<and> fst (poll [finite64_of 1, finite64_of 2, finite64_of 3]
        \<lparr>Timer.start_time = Finite (finite64_of 0), duration = Finite (finite64_of 2)\<rparr>) ! 1
   \<and> fst (poll [finite64_of 1, finite64_of 2, finite64_of 3]
        \<lparr>Timer.start_time = Finite (finite64_of 0), duration = Finite (finite64_of 2)\<rparr>) ! 2"
proof -
  note r = Rep_of_0 Rep_of_int [of 1, simplified] Rep_of_int [of 2, simplified]
    Rep_of_int [of 3, simplified]
  let ?nows = "[finite64_of 1, finite64_of 2, finite64_of 3]"
  let ?tm = "\<lparr>Timer.start_time = Finite (finite64_of 0), duration = Finite (finite64_of 2)\<rparr>"
  have s: "sorted ?nows" by (simp add: less_eq_finite64.rep_eq r)
  have ij: "(1::nat) \<le> 2" by simp
  have l: "2 < length ?nows" by simp
  have "fadd (Finite (finite64_of 0)) (Finite (finite64_of 2)) = Finite (finite64_of 2)"
    using round64_int [of 2] by (simp add: r)
  then have p: "fst (poll ?nows ?tm) ! 1"
    by (simp add: is_done_def fge_def)
  show ?thesis
    using s ij l p is_done_stays_true [OF s ij l p] by simp
qed

text \<open>
  C3 (as amended). Constructing a timer never fails, whatever the duration: no
  \<open>InvalidArgument\<close> (nor any other error) is raised, also for a negative duration, and the
  timer holds the duration it was given.
\<close>

theorem Timer_init_never_fails:
  "Timer_init now d \<noteq> Inl e \<and> (\<exists>tm. Timer_init now d = Inr tm \<and> duration tm = d)"
  by (simp add: Timer_init_def)

text \<open>
  The claim as the spec words it (a negative duration makes the construction fail with
  \<open>InvalidArgument\<close>) does not hold: with the duration \<open>-5\<close> at clock reading \<open>100\<close> the
  constructor returns a timer, whose duration is \<open>-5\<close>.
\<close>

theorem Timer_init_negative_counterexample:
  "flt (Finite (finite64_of (- 5))) (round64 0)
   \<and> Timer_init (finite64_of 100) (Finite (finite64_of (- 5)))
       = Inr \<lparr>Timer.start_time = Finite (finite64_of 100), duration = Finite (finite64_of (- 5))\<rparr>
   \<and> Timer_init (finite64_of 100) (Finite (finite64_of (- 5))) \<noteq> Inl InvalidArgument"
  using Rep_of_int [of "- 5"]
  by (simp add: Timer_init_def round64_0 less_finite64.rep_eq Rep_of_0)

text \<open>
  C4. A timer constructed with duration \<open>0\<close> answers true at its first \<^verbatim>\<open>is_done()\<close>
  call, whatever time \<open>e \<ge> 0\<close> has elapsed on the clock since the construction: the reading
  of the call is \<open>e\<close> after the reading \<open>t0\<close> of the construction.
\<close>

theorem zero_duration_done_at_first_query:
  assumes "Timer_init t0 (round64 0) = Inr tm" and "0 \<le> e"
    and "Rep_finite64 now = Rep_finite64 t0 + e"
  shows "fst (is_done now tm)"
proof -
  have "fadd (Finite t0) (round64 0) = Finite t0"
    by (simp add: round64_0 Rep_of_0 round64_Rep)
  moreover have "t0 \<le> now"
    using assms(2,3) by (simp add: less_eq_finite64.rep_eq)
  ultimately show ?thesis
    using Timer_init_fields [OF assms(1)] by (simp add: is_done_def fge_def)
qed

theorem zero_duration_done_at_first_query_witness:
  "Timer_init (finite64_of 10) (round64 0)
       = Inr \<lparr>Timer.start_time = Finite (finite64_of 10), duration = round64 0\<rparr>
   \<and> (0::real) \<le> 5
   \<and> Rep_finite64 (finite64_of 15) = Rep_finite64 (finite64_of 10) + 5
   \<and> fst (is_done (finite64_of 15)
        \<lparr>Timer.start_time = Finite (finite64_of 10), duration = round64 0\<rparr>)"
proof -
  have c: "Timer_init (finite64_of 10) (round64 0)
       = Inr \<lparr>Timer.start_time = Finite (finite64_of 10), duration = round64 0\<rparr>"
    by (simp add: Timer_init_def)
  have e: "(0::real) \<le> 5" by simp
  have n: "Rep_finite64 (finite64_of 15) = Rep_finite64 (finite64_of 10) + 5"
    using Rep_of_int [of 15] Rep_of_int [of 10] by simp
  show ?thesis
    using c e n zero_duration_done_at_first_query [OF c e n] by blast
qed

text \<open>
  C7. \<^verbatim>\<open>is_done()\<close> is a pure query: after one call, and after any run of calls, the timer
  is the one it was; its start timestamp and its duration are those of the construction.
\<close>

theorem is_done_leaves_timer_unchanged:
  "snd (is_done now tm) = tm \<and> snd (poll nows tm) = tm
   \<and> Timer.start_time (snd (poll nows tm)) = Timer.start_time tm
   \<and> duration (snd (poll nows tm)) = duration tm"
  by (simp add: poll_eq is_done_def)

text \<open>
  C10. The constructor accepts every duration, negative ones included, without raising; a
  timer constructed with a negative duration answers true at its first \<^verbatim>\<open>is_done()\<close>
  call (a call whose clock reading is not before the reading of the construction).
\<close>

theorem negative_duration_done_at_once:
  "\<exists>tm. Timer_init t0 d = Inr tm
     \<and> (flt d (round64 0) \<longrightarrow> t0 \<le> now \<longrightarrow> fst (is_done now tm))"
proof -
  have "fst (is_done now \<lparr>Timer.start_time = Finite t0, duration = d\<rparr>)"
    if "flt d (round64 0)" and "t0 \<le> now"
  proof -
    have "fle (fadd (Finite t0) d) (Finite t0)"
      using that(1) by (rule fadd_le_left)
    moreover have "fle (Finite t0) (Finite now)"
      using that(2) by simp
    ultimately have "fle (fadd (Finite t0) d) (Finite now)"
      by (rule fle_trans)
    then show ?thesis by (simp add: is_done_def fge_def)
  qed
  then show ?thesis by (simp add: Timer_init_def)
qed

theorem negative_duration_done_at_once_witness:
  "flt (Finite (finite64_of (- 5))) (round64 0) \<and> finite64_of 100 \<le> finite64_of 100
   \<and> (\<exists>tm. Timer_init (finite64_of 100) (Finite (finite64_of (- 5))) = Inr tm
         \<and> fst (is_done (finite64_of 100) tm))"
proof -
  have d: "flt (Finite (finite64_of (- 5))) (round64 0)"
    using Rep_of_int [of "- 5"] by (simp add: round64_0 less_finite64.rep_eq Rep_of_0)
  show ?thesis
    using d negative_duration_done_at_once
      [of "finite64_of 100" "Finite (finite64_of (- 5))" "finite64_of 100"]
    by simp
qed

section \<open>Properties of the stopwatch\<close>

text \<open>
  C5 (as amended). Of two successive \<^verbatim>\<open>time_elapsed()\<close> calls on one stopwatch, the second
  never returns a smaller value than the first provided its clock reading is not below the
  reading of the first call: float subtraction is monotone in the reading.
\<close>

theorem time_elapsed_non_decreasing:
  assumes "now1 \<le> now2"
    and "time_elapsed now1 sw = (e1, sw1)"
    and "time_elapsed now2 sw1 = (e2, sw2)"
  shows "\<not> flt e2 e1 \<and> (Stopwatch.start_time sw \<noteq> NaN \<longrightarrow> fle e1 e2)"
proof -
  let ?s = "Stopwatch.start_time sw"
  have e: "e1 = fsub (Finite now1) ?s" "e2 = fsub (Finite now2) ?s"
    using assms(2,3) by (auto simp: time_elapsed_def)
  show ?thesis
  proof (cases "?s = NaN")
    case True
    then show ?thesis by (simp add: e)
  next
    case False
    then have "fle e1 e2"
      unfolding e using assms(1) by (intro fsub_mono_left)
    then show ?thesis by (simp add: not_flt_if_fle)
  qed
qed

theorem time_elapsed_non_decreasing_witness:
  "finite64_of 12 \<le> finite64_of 15
   \<and> time_elapsed (finite64_of 12) \<lparr>Stopwatch.start_time = Finite (finite64_of 10)\<rparr>
       = (Finite (finite64_of 2), \<lparr>Stopwatch.start_time = Finite (finite64_of 10)\<rparr>)
   \<and> time_elapsed (finite64_of 15) \<lparr>Stopwatch.start_time = Finite (finite64_of 10)\<rparr>
       = (Finite (finite64_of 5), \<lparr>Stopwatch.start_time = Finite (finite64_of 10)\<rparr>)
   \<and> \<not> flt (Finite (finite64_of 5)) (Finite (finite64_of 2))
   \<and> fle (Finite (finite64_of 2)) (Finite (finite64_of 5))"
proof -
  note r = Rep_of_int [of 10, simplified] Rep_of_int [of 12, simplified]
    Rep_of_int [of 15, simplified]
  let ?sw = "\<lparr>Stopwatch.start_time = Finite (finite64_of 10)\<rparr>"
  have o: "finite64_of 12 \<le> finite64_of 15"
    by (simp add: less_eq_finite64.rep_eq r)
  have a: "time_elapsed (finite64_of 12) ?sw = (Finite (finite64_of 2), ?sw)"
    using round64_int [of 2] by (simp add: time_elapsed_def r)
  have b: "time_elapsed (finite64_of 15) ?sw = (Finite (finite64_of 5), ?sw)"
    using round64_int [of 5] by (simp add: time_elapsed_def r)
  show ?thesis
    using o a b time_elapsed_non_decreasing [OF o a b] by simp
qed

text \<open>
  Without the condition on the readings the claim does not hold: \<^verbatim>\<open>time.time()\<close> is the
  settable system clock. A stopwatch started at reading \<open>10\<close> returns \<open>2\<close> at reading
  \<open>12\<close> and then \<open>-2\<close> at reading \<open>8\<close>, when the clock has been set back between the two
  calls.
\<close>

theorem time_elapsed_clock_set_back_counterexample:
  "Stopwatch_init (finite64_of 10) = Inr \<lparr>Stopwatch.start_time = Finite (finite64_of 10)\<rparr>
   \<and> time_elapsed (finite64_of 12) \<lparr>Stopwatch.start_time = Finite (finite64_of 10)\<rparr>
       = (Finite (finite64_of 2), \<lparr>Stopwatch.start_time = Finite (finite64_of 10)\<rparr>)
   \<and> time_elapsed (finite64_of 8) \<lparr>Stopwatch.start_time = Finite (finite64_of 10)\<rparr>
       = (Finite (finite64_of (- 2)), \<lparr>Stopwatch.start_time = Finite (finite64_of 10)\<rparr>)
   \<and> flt (Finite (finite64_of (- 2))) (Finite (finite64_of 2))"
proof -
  note r = Rep_of_int [of 10, simplified] Rep_of_int [of 12, simplified]
    Rep_of_int [of 8, simplified] Rep_of_int [of 2, simplified]
  have m: "Rep_finite64 (finite64_of (- 2)) = - 2"
    using Rep_of_int [of "- 2"] by simp
  show ?thesis
    using round64_int [of 2] round64_int [of "- 2"]
    by (simp add: Stopwatch_init_def time_elapsed_def less_finite64.rep_eq r m)
qed

text \<open>
  C6 (as amended). A \<^verbatim>\<open>time_elapsed()\<close> call on a stopwatch constructed at clock reading
  \<open>t0\<close> returns the float difference of the reading of the call and \<open>t0\<close>, that is, the
  exact difference rounded to binary64, and leaves the stopwatch as it was; the value
  returned is the exact difference whenever that difference is itself a float.
\<close>

theorem time_elapsed_is_rounded_difference:
  assumes "Stopwatch_init t0 = Inr sw"
  shows "time_elapsed now sw = (round64 (Rep_finite64 now - Rep_finite64 t0), sw)
     \<and> (is_binary64 (Rep_finite64 now - Rep_finite64 t0) \<longrightarrow>
          time_elapsed now sw = (Finite (finite64_of (Rep_finite64 now - Rep_finite64 t0)), sw))"
  using assms by (auto simp: Stopwatch_init_def time_elapsed_def round64_exact)

theorem time_elapsed_is_rounded_difference_witness:
  "Stopwatch_init (finite64_of 10) = Inr \<lparr>Stopwatch.start_time = Finite (finite64_of 10)\<rparr>
   \<and> is_binary64 (Rep_finite64 (finite64_of 14) - Rep_finite64 (finite64_of 10))
   \<and> time_elapsed (finite64_of 14) \<lparr>Stopwatch.start_time = Finite (finite64_of 10)\<rparr>
       = (Finite (finite64_of 4), \<lparr>Stopwatch.start_time = Finite (finite64_of 10)\<rparr>)"
proof -
  note r = Rep_of_int [of 10, simplified] Rep_of_int [of 14, simplified]
  have c: "Stopwatch_init (finite64_of 10)
      = Inr \<lparr>Stopwatch.start_time = Finite (finite64_of 10)\<rparr>"
    by (simp add: Stopwatch_init_def)
  have b: "is_binary64 (Rep_finite64 (finite64_of 14) - Rep_finite64 (finite64_of 10))"
    using is_binary64_int [of 4] by (simp add: r)
  have "time_elapsed (finite64_of 14) \<lparr>Stopwatch.start_time = Finite (finite64_of 10)\<rparr>
      = (Finite (finite64_of (Rep_finite64 (finite64_of 14) - Rep_finite64 (finite64_of 10))),
         \<lparr>Stopwatch.start_time = Finite (finite64_of 10)\<rparr>)"
    using b time_elapsed_is_rounded_difference [OF c, of "finite64_of 14"] by blast
  then have "time_elapsed (finite64_of 14) \<lparr>Stopwatch.start_time = Finite (finite64_of 10)\<rparr>
      = (Finite (finite64_of 4), \<lparr>Stopwatch.start_time = Finite (finite64_of 10)\<rparr>)"
    by (simp add: r)
  then show ?thesis
    using c b by blast
qed

text \<open>
  The value returned is not always the exact difference: for a stopwatch whose start
  reading is \<open>2\<^sup>-\<^sup>3\<^sup>0\<close>, the call at reading \<open>1700000000\<close> returns \<open>1700000000\<close>, which is
  not \<open>1700000000 - 2\<^sup>-\<^sup>3\<^sup>0\<close>.
\<close>

theorem time_elapsed_rounded_counterexample:
  "Stopwatch_init (finite64_of (1 / 2 ^ 30))
       = Inr \<lparr>Stopwatch.start_time = Finite (finite64_of (1 / 2 ^ 30))\<rparr>
   \<and> time_elapsed (finite64_of 1700000000)
         \<lparr>Stopwatch.start_time = Finite (finite64_of (1 / 2 ^ 30))\<rparr>
       = (Finite (finite64_of 1700000000),
          \<lparr>Stopwatch.start_time = Finite (finite64_of (1 / 2 ^ 30))\<rparr>)
   \<and> Rep_finite64 (finite64_of 1700000000)
       \<noteq> Rep_finite64 (finite64_of 1700000000) - Rep_finite64 (finite64_of (1 / 2 ^ 30))"
proof -
  define t where "t = finite64_of 1700000000"
  define d where "d = finite64_of (1 / 2 ^ 30)"
  have rt: "Rep_finite64 t = 1700000000"
    unfolding t_def using Rep_of_int [of 1700000000] by simp
  have rd: "Rep_finite64 d = 1 / 2 ^ 30"
    unfolding d_def using Rep_of_dyadic [of 1 30] by simp
  have "fsub (Finite t) (Finite d) = round64 (1700000000 - 1 / 2 ^ 30)"
    by (simp only: fsub.simps rt rd)
  also have "\<dots> = Finite t"
    unfolding t_def using nearest64_absorbed_below small_lt_huge64 [of 1700000000]
    by (intro round64_near) simp_all
  finally have s: "fsub (Finite t) (Finite d) = Finite t" .
  have "Stopwatch_init d = Inr \<lparr>Stopwatch.start_time = Finite d\<rparr>
     \<and> time_elapsed t \<lparr>Stopwatch.start_time = Finite d\<rparr>
         = (Finite t, \<lparr>Stopwatch.start_time = Finite d\<rparr>)
     \<and> Rep_finite64 t \<noteq> Rep_finite64 t - Rep_finite64 d"
    by (simp add: Stopwatch_init_def time_elapsed_def s rd del: fsub.simps)
  then show ?thesis
    unfolding t_def d_def .
qed

section \<open>Properties of the replica role\<close>

text \<open>
  C8. The role type has exactly three values, \<open>FOLLOWER\<close>, \<open>CANDIDATE\<close> and \<open>LEADER\<close>,
  pairwise different and without payload; every role is one of them (their enumeration
  values are 0, 1 and 2).
\<close>

theorem ReplicaState_three_variants:
  "(r = FOLLOWER \<or> r = CANDIDATE \<or> r = LEADER)
   \<and> distinct [FOLLOWER, CANDIDATE, LEADER]
   \<and> card (UNIV :: ReplicaState set) = 3
   \<and> ReplicaState_value ` UNIV = {0, 1, 2}"
proof -
  have u: "(UNIV :: ReplicaState set) = {FOLLOWER, CANDIDATE, LEADER}"
    by (auto intro: ReplicaState.exhaust)
  have "r = FOLLOWER \<or> r = CANDIDATE \<or> r = LEADER"
    by (cases r) simp_all
  moreover have "card (UNIV :: ReplicaState set) = 3"
    unfolding u by simp
  moreover have "ReplicaState_value ` UNIV = {0, 1, 2}"
    unfolding u by simp
  ultimately show ?thesis by simp
qed

section \<open>Properties of the election controller\<close>

lemma step_term_mono:
  "step ev c = Inr (c', fx) \<Longrightarrow> current_term c \<le> current_term c'"
  by (cases ev; cases "current_role c") (auto split: if_splits)

lemma deliver_term_mono: "current_term c \<le> current_term (deliver ev c)"
  by (auto simp: deliver_def split: sum.splits dest: step_term_mono)

lemma trace_term_lower:
  "s \<in> set (trace evs c) \<Longrightarrow> current_term c \<le> current_term s"
proof (induction evs arbitrary: c)
  case Nil
  then show ?case by simp
next
  case (Cons ev evs)
  from Cons.prems have "s = c \<or> s \<in> set (trace evs (deliver ev c))" by simp
  then show ?case
  proof
    assume "s = c"
    then show ?thesis by simp
  next
    assume "s \<in> set (trace evs (deliver ev c))"
    then have "current_term (deliver ev c) \<le> current_term s" by (rule Cons.IH)
    with deliver_term_mono [of c ev] show ?thesis by linarith
  qed
qed

lemma trace_terms_sorted: "sorted (map current_term (trace evs c))"
proof (induction evs arbitrary: c)
  case Nil
  then show ?case by simp
next
  case (Cons ev evs)
  have "\<forall>s \<in> set (trace evs (deliver ev c)). current_term c \<le> current_term s"
    using trace_term_lower deliver_term_mono order_trans by blast
  with Cons.IH [of "deliver ev c"] show ?case by simp
qed

lemma trace_hd: "trace evs c ! 0 = c"
  by (cases evs) simp_all

lemma trace_Suc:
  "k < length evs \<Longrightarrow> trace evs c ! Suc k = deliver (evs ! k) (trace evs c ! k)"
proof (induction evs arbitrary: c k)
  case Nil
  then show ?case by simp
next
  case (Cons ev evs)
  show ?case
  proof (cases k)
    case 0
    then show ?thesis by (simp add: trace_hd)
  next
    case (Suc m)
    with Cons.prems have "m < length evs" by simp
    from Cons.IH [OF this] Suc show ?thesis by simp
  qed
qed

lemma enters_candidate_deliver:
  "enters_candidate ev c \<Longrightarrow>
     current_role (deliver ev c) = CANDIDATE \<and> current_term c < current_term (deliver ev c)"
  by (cases ev; cases "current_role c")
    (auto simp: enters_candidate_def deliver_def split: if_splits)

lemma election_timeout_enters_candidate:
  "current_role c \<noteq> LEADER \<Longrightarrow> enters_candidate on_election_timeout c"
  by (cases "current_role c") (auto simp: enters_candidate_def)

text \<open>
  C9. Over any sequence of events delivered to a controller, the term never decreases from
  one state to a later one; every transition into \<open>CANDIDATE\<close> leaves the controller in
  the role \<open>CANDIDATE\<close> with a term strictly greater than it was just before; and every
  expiry of the election timer at a \<open>FOLLOWER\<close> or at a \<open>CANDIDATE\<close> (the split-vote
  retry) is such a transition.
\<close>

theorem term_non_decreasing:
  "sorted (map current_term (trace evs c))
   \<and> (\<forall>k < length evs.
         enters_candidate (evs ! k) (trace evs c ! k) \<longrightarrow>
           current_role (trace evs c ! Suc k) = CANDIDATE
           \<and> current_term (trace evs c ! k) < current_term (trace evs c ! Suc k))
   \<and> (\<forall>k < length evs.
         evs ! k = on_election_timeout \<and> current_role (trace evs c ! k) \<noteq> LEADER \<longrightarrow>
           enters_candidate (evs ! k) (trace evs c ! k))"
  using trace_terms_sorted enters_candidate_deliver election_timeout_enters_candidate
  by (simp add: trace_Suc)

theorem term_non_decreasing_witness:
  "Suc 0 < length [on_election_timeout, on_election_timeout]
   \<and> [on_election_timeout, on_election_timeout] ! Suc 0 = on_election_timeout
   \<and> trace [on_election_timeout, on_election_timeout]
        \<lparr>replica_id = 1, current_role = FOLLOWER, current_term = 3\<rparr> ! Suc 0
      = \<lparr>replica_id = 1, current_role = CANDIDATE, current_term = 4\<rparr>
   \<and> enters_candidate on_election_timeout
        \<lparr>replica_id = 1, current_role = CANDIDATE, current_term = 4\<rparr>
   \<and> current_role (trace [on_election_timeout, on_election_timeout]
        \<lparr>replica_id = 1, current_role = FOLLOWER, current_term = 3\<rparr> ! Suc (Suc 0)) = CANDIDATE
   \<and> 4 < current_term (trace [on_election_timeout, on_election_timeout]
        \<lparr>replica_id = 1, current_role = FOLLOWER, current_term = 3\<rparr> ! Suc (Suc 0))
   \<and> sorted (map current_term (trace [on_election_timeout, on_election_timeout]
        \<lparr>replica_id = 1, current_role = FOLLOWER, current_term = 3\<rparr>))"
proof -
  let ?evs = "[on_election_timeout, on_election_timeout]"
  let ?c = "\<lparr>replica_id = 1, current_role = FOLLOWER, current_term = 3\<rparr>"
  let ?c1 = "\<lparr>replica_id = 1, current_role = CANDIDATE, current_term = 4\<rparr>"
  have l: "Suc 0 < length ?evs" by simp
  have e: "?evs ! Suc 0 = on_election_timeout" by simp
  have t: "trace ?evs ?c ! Suc 0 = ?c1"
    by (simp add: deliver_def)
  have r: "current_role ?c1 \<noteq> LEADER" by simp
  from l e t r term_non_decreasing [of ?evs ?c]
  have en: "enters_candidate (?evs ! Suc 0) (trace ?evs ?c ! Suc 0)"
    by metis
  from l en term_non_decreasing [of ?evs ?c]
  have "current_role (trace ?evs ?c ! Suc (Suc 0)) = CANDIDATE
      \<and> current_term (trace ?evs ?c ! Suc 0) < current_term (trace ?evs ?c ! Suc (Suc 0))"
    by blast
  then have s: "current_role (trace ?evs ?c ! Suc (Suc 0)) = CANDIDATE
      \<and> 4 < current_term (trace ?evs ?c ! Suc (Suc 0))"
    by (simp only: t) simp
  have en': "enters_candidate on_election_timeout ?c1"
    using en by (simp only: e t)
  show ?thesis
    using l e t en' s term_non_decreasing [of ?evs ?c] by blast
qed

end
